theory Spec2Isabelle
  imports Complex_Main
begin

section \<open>The checkout simulation of Projectsim.py\<close>

text \<open>
  The program is a single SimPy script: a \<^verbatim>\<open>GroceryStore\<close> with three checkout
  lanes (each a \<^verbatim>\<open>simpy.Resource\<close> of capacity one), a \<^verbatim>\<open>setup\<close> process that
  spawns customers, a \<^verbatim>\<open>customer\<close> process, and \<^verbatim>\<open>env.run(until=SIMULATION_TIME)\<close>.

  Simulated time is a Python float; it is modelled as a \<^typ>\<open>real\<close> (no rounding).
  The \<open>k\<close>-th value returned by \<^verbatim>\<open>random.expovariate\<close> during the run is \<open>rnd k\<close>,
  for an arbitrary stream \<open>rnd\<close>: both call sites draw from the one generator of the
  \<^verbatim>\<open>random\<close> module, in the order in which the processes execute, so the state keeps
  the number of draws made so far.
\<close>

subsection \<open>Simulation parameters\<close>

definition NUM_CHECKOUT_LANES :: nat where
  "NUM_CHECKOUT_LANES = 3"

definition MAX_QUEUE :: nat where
  "MAX_QUEUE = 10"

definition SIMULATION_TIME :: real where
  "SIMULATION_TIME = 600"

subsection \<open>Data\<close>

text \<open>Exceptions that can leave a process body or \<^verbatim>\<open>env.step\<close>.\<close>

datatype error = ValueError | ZeroDivisionError | IndexError | EmptySchedule | RuntimeError

text \<open>
  The local variables of one \<^verbatim>\<open>customer\<close> generator once it has chosen its lane.
  A \<^verbatim>\<open>Request\<close> object of SimPy is identified with the frame of the customer that
  made it (customer ids are unique).
\<close>

record customer_frame =
  customer_id :: nat
  arrival_time :: real
  lane_number :: nat

text \<open>
  \<^verbatim>\<open>simpy.Resource(env)\<close>, capacity 1: \<open>users\<close> holds the granted requests
  (\<^verbatim>\<open>count\<close> is its length), \<open>queue\<close> the pending ones in arrival order.
\<close>

record resource =
  users :: "customer_frame list"
  queue :: "customer_frame list"

definition capacity :: nat where
  "capacity = 1"

text \<open>The lines the program prints (numbers kept as values, not formatted).\<close>

datatype printed =
    Arrives nat real
  | LaneOpens nat real
  | Joins nat nat nat
  | Waited nat real nat
  | CheckedOut nat nat real

text \<open>
  The events of the run. Each is one SimPy event object together with what its
  callbacks will resume:
  \<^item> \<open>InitializeSetup\<close>, \<open>InitializeCustomer\<close>, \<open>InitializeCheckout\<close>: the
    \<^verbatim>\<open>Initialize\<close> event that starts a new process (\<^verbatim>\<open>env.process(...)\<close>);
  \<^item> \<open>SetupTimeout\<close>, \<open>CheckoutTimeout\<close>: the \<^verbatim>\<open>env.timeout(...)\<close> a process waits for;
  \<^item> \<open>Request\<close>: a granted lane request, which resumes the customer;
  \<^item> \<open>Release\<close>: the release of a lane, whose callback grants the next request;
  \<^item> \<open>CheckoutProcess\<close>: the end of \<^verbatim>\<open>checkout_customer\<close>, which resumes the customer;
  \<^item> \<open>CustomerProcess\<close>, \<open>SetupProcess\<close>: the end of a process nobody waits for;
  \<^item> \<open>Until\<close>: the stop event of \<^verbatim>\<open>env.run(until=...)\<close>.
\<close>

datatype event =
    InitializeSetup
  | Until
  | SetupTimeout
  | SetupProcess
  | InitializeCustomer nat
  | Request customer_frame
  | InitializeCheckout customer_frame
  | CheckoutTimeout customer_frame real
  | CheckoutProcess customer_frame
  | Release nat
  | CustomerProcess customer_frame

text \<open>An entry of the environment's heap: \<^verbatim>\<open>(time, priority, eid, event)\<close>.\<close>

record entry =
  ev_time :: real
  ev_prio :: nat
  ev_id :: nat
  ev_event :: event

definition URGENT :: nat where
  "URGENT = 0"

definition NORMAL :: nat where
  "NORMAL = 1"

text \<open>
  The whole state: the environment (\<open>now\<close>, \<open>heap\<close>, \<open>eid\<close>), the number of draws
  from the random generator, the local variable \<^verbatim>\<open>customer_id\<close> of \<^verbatim>\<open>setup\<close>, the
  fields of the \<^verbatim>\<open>GroceryStore\<close>, and standard output.
\<close>

record sim =
  now :: real
  heap :: "entry list"
  eid :: nat
  draws :: nat
  setup_customer_id :: nat
  checkout_lanes :: "resource list"
  active_lanes :: nat
  waiting_times :: "real list"
  service_times :: "real list"
  average_queue_lengths :: "real list"
  queue_record_times :: "real list"
  stdout :: "printed list"

subsection \<open>The environment\<close>

text \<open>\<^verbatim>\<open>env.schedule(event, priority, delay)\<close>: push with the next event id.\<close>

definition schedule :: "nat \<Rightarrow> real \<Rightarrow> event \<Rightarrow> sim \<Rightarrow> sim" where
  "schedule prio delay ev s =
     s\<lparr>heap := heap s @ [\<lparr>ev_time = now s + delay, ev_prio = prio, ev_id = eid s, ev_event = ev\<rparr>],
       eid := eid s + 1\<rparr>"

text \<open>The order of heap entries: by time, then priority, then event id.\<close>

definition key_less :: "entry \<Rightarrow> entry \<Rightarrow> bool" where
  "key_less a b \<longleftrightarrow>
     ev_time a < ev_time b \<or>
     (ev_time a = ev_time b \<and>
       (ev_prio a < ev_prio b \<or> (ev_prio a = ev_prio b \<and> ev_id a < ev_id b)))"

fun earliest :: "entry \<Rightarrow> entry list \<Rightarrow> entry" where
  "earliest m [] = m"
| "earliest m (x # xs) = earliest (if key_less x m then x else m) xs"

text \<open>\<^verbatim>\<open>heappop\<close>: the smallest entry and the rest; \<open>None\<close> on an empty heap.\<close>

definition heappop :: "entry list \<Rightarrow> (entry \<times> entry list) option" where
  "heappop q =
     (case q of
        [] \<Rightarrow> None
      | x # xs \<Rightarrow> (let m = earliest x xs in Some (m, remove1 m q)))"

subsection \<open>Lanes\<close>

definition load :: "resource \<Rightarrow> nat" where
  "load r = length (users r) + length (queue r)"

text \<open>\<^verbatim>\<open>lane.count + len(lane.queue)\<close> for \<^verbatim>\<open>lane = self.checkout_lanes[i]\<close>.\<close>

definition lane_load :: "sim \<Rightarrow> nat \<Rightarrow> error + nat" where
  "lane_load s i =
     (if i < length (checkout_lanes s) then Inr (load (checkout_lanes s ! i))
      else Inl IndexError)"

text \<open>
  \<^verbatim>\<open>Resource._trigger_put\<close>: only the head of the queue is tried (\<^verbatim>\<open>_do_put\<close> returns
  nothing, so the loop stops after one request); it is granted when a slot is free,
  and the granted request is scheduled as an event at the current time.
\<close>

definition trigger_put :: "nat \<Rightarrow> sim \<Rightarrow> sim" where
  "trigger_put li s =
     (if li < length (checkout_lanes s) then
        (let lane = checkout_lanes s ! li in
         case queue lane of
           [] \<Rightarrow> s
         | r # rs \<Rightarrow>
             if length (users lane) < capacity then
               schedule NORMAL 0 (Request r)
                 (s\<lparr>checkout_lanes :=
                     (checkout_lanes s)[li := \<lparr>users = users lane @ [r], queue = rs\<rparr>]\<rparr>)
             else s)
      else s)"

text \<open>
  \<^verbatim>\<open>lane.request()\<close>: join the queue of the lane, then try to grant. In Python the
  request holds its resource object; here the frame holds the index of the lane, which
  \<open>customer\<close> has read just before (an index out of range has raised \<^verbatim>\<open>IndexError\<close>
  there).
\<close>

definition request :: "customer_frame \<Rightarrow> sim \<Rightarrow> sim" where
  "request f s =
     (let li = lane_number f; lane = checkout_lanes s ! li in
      trigger_put li
        (s\<lparr>checkout_lanes := (checkout_lanes s)[li := lane\<lparr>queue := queue lane @ [f]\<rparr>]\<rparr>))"

text \<open>
  \<^verbatim>\<open>lane.release(request)\<close>, called on leaving the \<^verbatim>\<open>with\<close> block: the request leaves
  \<open>users\<close> at once; the \<^verbatim>\<open>Release\<close> event, whose callback is \<^verbatim>\<open>_trigger_put\<close>, is
  scheduled at the current time.
\<close>

definition release :: "customer_frame \<Rightarrow> sim \<Rightarrow> sim" where
  "release f s =
     (let li = lane_number f; lane = checkout_lanes s ! li in
      schedule NORMAL 0 (Release li)
        (s\<lparr>checkout_lanes := (checkout_lanes s)[li := lane\<lparr>users := remove1 f (users lane)\<rparr>]\<rparr>))"

subsection \<open>GroceryStore\<close>

definition manage_checkouts :: "sim \<Rightarrow> error + sim" where
  "manage_checkouts s =
     (case lane_load s 0 of
        Inl e \<Rightarrow> Inl e
      | Inr l0 \<Rightarrow>
          (let s1 = (if MAX_QUEUE \<le> l0
                     then s\<lparr>stdout := stdout s @ [LaneOpens 2 (now s)], active_lanes := 2\<rparr>
                     else s)
           in if 2 \<le> active_lanes s1 then
                (case lane_load s1 1 of
                   Inl e \<Rightarrow> Inl e
                 | Inr l1 \<Rightarrow>
                     if MAX_QUEUE \<le> l1
                     then Inr (s1\<lparr>active_lanes := 3,
                                  stdout := stdout s1 @ [LaneOpens 3 (now s1)]\<rparr>)
                     else Inr s1)
              else Inr s1))"

definition update_queue_stats :: "sim \<Rightarrow> error + sim" where
  "update_queue_stats s =
     (let total_queue_length = sum_list (map load (take (active_lanes s) (checkout_lanes s)))
      in if active_lanes s = 0 then Inl ZeroDivisionError
         else Inr (s\<lparr>average_queue_lengths :=
                        average_queue_lengths s @ [real total_queue_length / real (active_lanes s)],
                      queue_record_times := queue_record_times s @ [now s]\<rparr>))"

definition add_waiting_time :: "real \<Rightarrow> sim \<Rightarrow> sim" where
  "add_waiting_time waiting_time s = s\<lparr>waiting_times := waiting_times s @ [waiting_time]\<rparr>"

text \<open>
  \<^verbatim>\<open>checkout_customer\<close> up to its \<^verbatim>\<open>yield\<close>: draw the service time and wait for it.
  \<^verbatim>\<open>env.timeout\<close> raises \<^verbatim>\<open>ValueError\<close> on a negative delay and accepts every other.
\<close>

definition checkout_customer :: "(nat \<Rightarrow> real) \<Rightarrow> customer_frame \<Rightarrow> sim \<Rightarrow> error + sim" where
  "checkout_customer rnd f s =
     (let service_time = rnd (draws s); s1 = s\<lparr>draws := draws s + 1\<rparr>
      in if service_time < 0 then Inl ValueError
         else Inr (schedule NORMAL service_time (CheckoutTimeout f service_time) s1))"

text \<open>\<^verbatim>\<open>checkout_customer\<close> after its \<^verbatim>\<open>yield\<close>: print, record, end of the process.\<close>

definition checkout_customer_resume :: "customer_frame \<Rightarrow> real \<Rightarrow> sim \<Rightarrow> sim" where
  "checkout_customer_resume f service_time s =
     schedule NORMAL 0 (CheckoutProcess f)
       (s\<lparr>stdout := stdout s @ [CheckedOut (customer_id f) (lane_number f + 1) service_time],
          service_times := service_times s @ [service_time]\<rparr>)"

subsection \<open>The customer process\<close>

text \<open>
  Python's \<^verbatim>\<open>min(iterable, key=...)\<close> on a non-empty iterable: the first element whose
  key is smallest (a later element replaces the best one only when its key is
  strictly smaller).
\<close>

fun min_by_key :: "(nat \<Rightarrow> nat) \<Rightarrow> nat \<Rightarrow> nat list \<Rightarrow> nat" where
  "min_by_key key best [] = best"
| "min_by_key key best (i # is) = min_by_key key (if key i < key best then i else best) is"

text \<open>
  \<^verbatim>\<open>min(range(store.active_lanes), key=...)\<close>: \<^verbatim>\<open>ValueError\<close> on an empty range,
  \<^verbatim>\<open>IndexError\<close> when the key reads a lane that does not exist.
\<close>

definition choose_lane_number :: "sim \<Rightarrow> error + nat" where
  "choose_lane_number s =
     (if active_lanes s = 0 then Inl ValueError
      else if length (checkout_lanes s) < active_lanes s then Inl IndexError
      else Inr (min_by_key (\<lambda>i. load (checkout_lanes s ! i)) 0 [1..<active_lanes s]))"

text \<open>\<^verbatim>\<open>customer\<close> from its start to \<^verbatim>\<open>yield request\<close>.\<close>

definition customer :: "nat \<Rightarrow> sim \<Rightarrow> error + sim" where
  "customer cid s =
     (let arrival = now s;
          s0 = s\<lparr>stdout := stdout s @ [Arrives cid arrival]\<rparr>
      in case manage_checkouts s0 of
           Inl e \<Rightarrow> Inl e
         | Inr s1 \<Rightarrow>
        (case update_queue_stats s1 of
           Inl e \<Rightarrow> Inl e
         | Inr s2 \<Rightarrow>
        (case choose_lane_number s2 of
           Inl e \<Rightarrow> Inl e
         | Inr li \<Rightarrow>
        (case lane_load s2 li of
           Inl e \<Rightarrow> Inl e
         | Inr queue_length \<Rightarrow>
             Inr (request \<lparr>customer_id = cid, arrival_time = arrival, lane_number = li\<rparr>
                    (s2\<lparr>stdout := stdout s2 @ [Joins cid (li + 1) queue_length]\<rparr>))))))"

text \<open>
  \<^verbatim>\<open>customer\<close> resumed by its granted request: record the wait, start
  \<^verbatim>\<open>checkout_customer\<close> as a process and wait for it.
\<close>

definition customer_granted :: "customer_frame \<Rightarrow> sim \<Rightarrow> sim" where
  "customer_granted f s =
     (let waiting_time = now s - arrival_time f
      in schedule URGENT 0 (InitializeCheckout f)
           ((add_waiting_time waiting_time s)
              \<lparr>stdout := stdout s @ [Waited (customer_id f) waiting_time (lane_number f + 1)]\<rparr>))"

text \<open>
  \<^verbatim>\<open>customer\<close> resumed by the end of \<^verbatim>\<open>checkout_customer\<close>: the \<^verbatim>\<open>with\<close> block
  releases the lane and the process ends.
\<close>

definition customer_finish :: "customer_frame \<Rightarrow> sim \<Rightarrow> sim" where
  "customer_finish f s = schedule NORMAL 0 (CustomerProcess f) (release f s)"

subsection \<open>The arrival process\<close>

text \<open>
  The loop of \<^verbatim>\<open>setup\<close> from its test to the next \<^verbatim>\<open>yield\<close>; when the test fails the
  process ends.
\<close>

definition setup_loop :: "(nat \<Rightarrow> real) \<Rightarrow> sim \<Rightarrow> error + sim" where
  "setup_loop rnd s =
     (if now s < SIMULATION_TIME then
        (let delay = rnd (draws s); s1 = s\<lparr>draws := draws s + 1\<rparr>
         in if delay < 0 then Inl ValueError
            else Inr (schedule NORMAL delay SetupTimeout s1))
      else Inr (schedule NORMAL 0 SetupProcess s))"

text \<open>\<^verbatim>\<open>setup\<close> resumed by its timeout: next id, spawn the customer, loop.\<close>

definition setup_resume :: "(nat \<Rightarrow> real) \<Rightarrow> sim \<Rightarrow> error + sim" where
  "setup_resume rnd s =
     (let cid = setup_customer_id s + 1
      in setup_loop rnd (schedule URGENT 0 (InitializeCustomer cid) (s\<lparr>setup_customer_id := cid\<rparr>)))"

subsection \<open>Running the simulation\<close>

text \<open>
  The result of one \<^verbatim>\<open>env.step()\<close>: the next state, the \<^verbatim>\<open>StopSimulation\<close> raised by
  the \<open>Until\<close> event (with the state it leaves), or an exception.

  An exception raised inside a process body makes SimPy fail the process event and
  re-raise from \<^verbatim>\<open>env.step\<close> once that event is popped; the event is scheduled at the
  current time, before the \<open>Until\<close> event, and nothing catches the exception, so the run
  ends with it. The model reports it at the step that raises it.
\<close>

datatype outcome = Next sim | Stop sim | Raise error

definition lift :: "error + sim \<Rightarrow> outcome" where
  "lift r = (case r of Inl e \<Rightarrow> Raise e | Inr s \<Rightarrow> Next s)"

definition dispatch :: "(nat \<Rightarrow> real) \<Rightarrow> event \<Rightarrow> sim \<Rightarrow> outcome" where
  "dispatch rnd ev s =
     (case ev of
        InitializeSetup \<Rightarrow> lift (setup_loop rnd (s\<lparr>setup_customer_id := 0\<rparr>))
      | Until \<Rightarrow> Stop s
      | SetupTimeout \<Rightarrow> lift (setup_resume rnd s)
      | SetupProcess \<Rightarrow> Next s
      | InitializeCustomer cid \<Rightarrow> lift (customer cid s)
      | Request f \<Rightarrow> Next (customer_granted f s)
      | InitializeCheckout f \<Rightarrow> lift (checkout_customer rnd f s)
      | CheckoutTimeout f service_time \<Rightarrow> Next (checkout_customer_resume f service_time s)
      | CheckoutProcess f \<Rightarrow> Next (customer_finish f s)
      | Release li \<Rightarrow> Next (trigger_put li s)
      | CustomerProcess f \<Rightarrow> Next s)"

text \<open>\<^verbatim>\<open>env.step()\<close>: pop the earliest entry, advance the clock, run the callbacks.\<close>

definition step :: "(nat \<Rightarrow> real) \<Rightarrow> sim \<Rightarrow> outcome" where
  "step rnd s =
     (case heappop (heap s) of
        None \<Rightarrow> Raise EmptySchedule
      | Some (e, q) \<Rightarrow> dispatch rnd (ev_event e) (s\<lparr>now := ev_time e, heap := q\<rparr>))"

text \<open>The event that the next \<^verbatim>\<open>env.step()\<close> will process.\<close>

definition next_event :: "sim \<Rightarrow> event option" where
  "next_event s =
     (case heappop (heap s) of
        None \<Rightarrow> None
      | Some (e, q) \<Rightarrow> Some (ev_event e))"

text \<open>
  The state in which \<^verbatim>\<open>env.run\<close> enters its loop: a fresh environment and store,
  \<^verbatim>\<open>env.process(setup(...))\<close> (event id 0), and the stop event that
  \<^verbatim>\<open>run(until=SIMULATION_TIME)\<close> schedules with priority \<^verbatim>\<open>URGENT\<close> (event id 1).
  The bound 600 lies after the initial time 0, so \<^verbatim>\<open>run\<close> does not reject it.
\<close>

definition store_instance :: sim where
  "store_instance =
     \<lparr>now = 0, heap = [], eid = 0, draws = 0, setup_customer_id = 0,
      checkout_lanes = replicate NUM_CHECKOUT_LANES \<lparr>users = [], queue = []\<rparr>,
      active_lanes = 1, waiting_times = [], service_times = [],
      average_queue_lengths = [], queue_record_times = [], stdout = []\<rparr>"

definition initial :: sim where
  "initial =
     schedule URGENT (SIMULATION_TIME - 0) Until (schedule URGENT 0 InitializeSetup store_instance)"

text \<open>
  \<^verbatim>\<open>env.run(until=SIMULATION_TIME)\<close> is \<^verbatim>\<open>while True: self.step()\<close> until an exception;
  nothing bounds the number of steps (a stream of zero delays never reaches the
  horizon). \<open>run rnd n\<close> is the loop cut after \<open>n\<close> steps: \<open>Next s\<close> when it is still
  running, in state \<open>s\<close>; \<open>Stop s\<close> when \<^verbatim>\<open>env.run\<close> has returned, leaving \<open>s\<close>;
  \<open>Raise e\<close> when it has been left by an exception (an empty heap, which
  \<^verbatim>\<open>env.run\<close> reports as \<^verbatim>\<open>RuntimeError\<close>, included).
\<close>

fun run :: "(nat \<Rightarrow> real) \<Rightarrow> nat \<Rightarrow> outcome" where
  "run rnd 0 = Next initial"
| "run rnd (Suc n) =
     (case run rnd n of
        Next s \<Rightarrow> (case step rnd s of Raise EmptySchedule \<Rightarrow> Raise RuntimeError | r \<Rightarrow> r)
      | r \<Rightarrow> r)"

subsection \<open>Invariants of the run\<close>

text \<open>
  The lane list keeps its three lanes, between one and three lanes are active, and as
  long as only one lane is active nobody has been routed to the second lane.
\<close>

definition lanes_ok :: "sim \<Rightarrow> bool" where
  "lanes_ok s \<longleftrightarrow>
     length (checkout_lanes s) = NUM_CHECKOUT_LANES \<and>
     1 \<le> active_lanes s \<and> active_lanes s \<le> NUM_CHECKOUT_LANES \<and>
     (active_lanes s = 1 \<longrightarrow> load (checkout_lanes s ! 1) = 0)"

text \<open>
  The clock never passes a pending entry; a pending or granted request belongs to a
  customer that has arrived; a pending service timeout and every recorded value is
  non-negative.
\<close>

fun event_ok :: "real \<Rightarrow> event \<Rightarrow> bool" where
  "event_ok t (Request f) = (arrival_time f \<le> t)"
| "event_ok t (CheckoutTimeout f service_time) = (0 \<le> service_time)"
| "event_ok t _ = True"

definition time_ok :: "sim \<Rightarrow> bool" where
  "time_ok s \<longleftrightarrow>
     (\<forall>e\<in>set (heap s). now s \<le> ev_time e \<and> event_ok (now s) (ev_event e)) \<and>
     (\<forall>r\<in>set (checkout_lanes s). \<forall>f\<in>set (queue r). arrival_time f \<le> now s) \<and>
     (\<forall>w\<in>set (waiting_times s). 0 \<le> w) \<and>
     (\<forall>x\<in>set (service_times s). 0 \<le> x)"

text \<open>
  A customer is in service from the moment its wait is recorded until its service
  time is recorded: its pending entry is then the start of \<^verbatim>\<open>checkout_customer\<close> or the
  service timeout.
\<close>

fun serving :: "event \<Rightarrow> bool" where
  "serving (InitializeCheckout f) = True"
| "serving (CheckoutTimeout f service_time) = True"
| "serving _ = False"

definition in_service :: "sim \<Rightarrow> nat" where
  "in_service s = length (filter (\<lambda>e. serving (ev_event e)) (heap s))"





subsection \<open>The capacity policy as the specification words it\<close>

text \<open>
  Section 4.3 of the specification: if the load of lane 1 reaches the threshold and
  lane 2 is not yet active, activate lane 2; else, if at least two lanes are active and
  the load of lane 2 reaches the threshold, activate lane 3. This definition follows
  those words, to be compared with \<open>manage_checkouts\<close>, which follows the code.
\<close>

definition manage_checkouts_spec :: "sim \<Rightarrow> error + sim" where
  "manage_checkouts_spec s =
     (case lane_load s 0 of
        Inl e \<Rightarrow> Inl e
      | Inr l0 \<Rightarrow>
          if MAX_QUEUE \<le> l0 \<and> active_lanes s < 2 then
            Inr (s\<lparr>stdout := stdout s @ [LaneOpens 2 (now s)], active_lanes := 2\<rparr>)
          else if 2 \<le> active_lanes s then
            (case lane_load s 1 of
               Inl e \<Rightarrow> Inl e
             | Inr l1 \<Rightarrow>
                 if MAX_QUEUE \<le> l1
                 then Inr (s\<lparr>active_lanes := 3, stdout := stdout s @ [LaneOpens 3 (now s)]\<rparr>)
                 else Inr s)
          else Inr s)"

subsection \<open>Sample runs\<close>


definition after :: "(nat \<Rightarrow> real) \<Rightarrow> sim \<Rightarrow> sim" where
  "after rnd s = (case step rnd s of Next s' \<Rightarrow> s' | Stop s' \<Rightarrow> s' | Raise e \<Rightarrow> s)"

text \<open>
  A congested run: one customer per minute; the first customer of lanes 1 and 3 and the
  second customer of lane 2 are served for 10000 minutes, the first customer of lane 2
  (customer 11) for ten and a half. Draw 2 is the service time of customer 1, draw 13
  that of customer 11, draw 24 that of customer 21, draw 25 that of customer 12; the
  other draws are interarrival delays.
\<close>

definition congested :: "nat \<Rightarrow> real" where
  "congested k =
     (if k = 13 then 21 / 2 else if k = 2 \<or> k = 24 \<or> k = 25 then 10000 else 1)"

text \<open>In the congested run customer \<open>k\<close> arrives at minute \<open>k\<close>.\<close>

definition arrived :: "nat \<Rightarrow> nat \<Rightarrow> customer_frame" where
  "arrived k li = \<lparr>customer_id = k, arrival_time = real k, lane_number = li\<rparr>"

text \<open>
  The congested run after 56 steps, at minute 22: three lanes are active, lane 1 holds
  customers 1 to 10, lane 2 customers 12 to 20 (customer 11 has left), lane 3 customer
  21, and customer 22 is about to start.
\<close>

definition congested_56 :: sim where
  "congested_56 =
     \<lparr>now = 22,
      heap =
        [\<lparr>ev_time = 600, ev_prio = 0, ev_id = 1, ev_event = Until\<rparr>,
         \<lparr>ev_time = 10001, ev_prio = 1, ev_id = 7,
          ev_event = CheckoutTimeout (arrived 1 0) 10000\<rparr>,
         \<lparr>ev_time = 10021, ev_prio = 1, ev_id = 53,
          ev_event = CheckoutTimeout (arrived 21 2) 10000\<rparr>,
         \<lparr>ev_time = 20043 / 2, ev_prio = 1, ev_id = 59,
          ev_event = CheckoutTimeout (arrived 12 1) 10000\<rparr>,
         \<lparr>ev_time = 22, ev_prio = 0, ev_id = 60, ev_event = InitializeCustomer 22\<rparr>,
         \<lparr>ev_time = 23, ev_prio = 1, ev_id = 61, ev_event = SetupTimeout\<rparr>],
      eid = 62, draws = 27, setup_customer_id = 22,
      checkout_lanes =
        [\<lparr>users = [arrived 1 0], queue = map (\<lambda>k. arrived k 0) [2..<11]\<rparr>,
         \<lparr>users = [arrived 12 1], queue = map (\<lambda>k. arrived k 1) [13..<21]\<rparr>,
         \<lparr>users = [arrived 21 2], queue = []\<rparr>],
      active_lanes = 3,
      waiting_times = [0, 0, 0, 19 / 2],
      service_times = [21 / 2],
      average_queue_lengths =
        [0, 1, 2, 3, 4, 5, 6, 7, 8, 9, 5, 11 / 2, 6, 13 / 2, 7, 15 / 2, 8, 17 / 2, 9,
         19 / 2, 20 / 3],
      queue_record_times = map real [1..<22],
      stdout =
        [Arrives 1 1, Joins 1 1 0, Waited 1 0 1] @
        concat (map (\<lambda>k. [Arrives k (real k), Joins k 1 (k - 1)]) [2..<11]) @
        [Arrives 11 11, LaneOpens 2 11, Joins 11 2 0, Waited 11 0 2] @
        concat (map (\<lambda>k. [Arrives k (real k), LaneOpens 2 (real k), Joins k 2 (k - 11)])
                  [12..<21]) @
        [Arrives 21 21, LaneOpens 2 21, LaneOpens 3 21, Joins 21 3 0, Waited 21 0 3,
         CheckedOut 11 2 (21 / 2), Waited 12 (19 / 2) 2]\<rparr>"

text \<open>
  What \<open>manage_checkouts\<close> makes of that state, and the next three states of the run:
  customer 22 starts, \<^verbatim>\<open>setup\<close> spawns customer 23, customer 23 starts.
\<close>

definition congested_56_managed :: sim where
  "congested_56_managed =
     congested_56\<lparr>stdout := stdout congested_56 @ [LaneOpens 2 22], active_lanes := 2\<rparr>"

definition congested_57 :: sim where
  "congested_57 = after congested congested_56"

definition congested_58 :: sim where
  "congested_58 = after congested congested_57"

definition congested_59 :: sim where
  "congested_59 = after congested congested_58"





section \<open>Verification\<close>

subsection \<open>The heap and the run loop\<close>

lemma earliest_mem: "earliest m xs \<in> set (m # xs)"
  by (induction xs arbitrary: m) auto

lemma earliest_time: "x \<in> set (m # xs) \<Longrightarrow> ev_time (earliest m xs) \<le> ev_time x"
proof (induction xs arbitrary: m x)
  case Nil
  then show ?case by simp
next
  case (Cons y ys)
  have step: "ev_time (earliest (if key_less y m then y else m) ys) \<le> ev_time (if key_less y m then y else m)"
    using Cons.IH [where m = "if key_less y m then y else m" and x = "if key_less y m then y else m"] by simp
  from Cons.prems consider "x = m" | "x = y" | "x \<in> set ys" by auto
  then show ?case
  proof cases
    case 1
    with step show ?thesis by (auto simp: key_less_def split: if_splits)
  next
    case 2
    with step show ?thesis by (auto simp: key_less_def split: if_splits)
  next
    case 3
    then show ?thesis using Cons.IH [where m = "if key_less y m then y else m" and x = x] by simp
  qed
qed

lemma earliest_least: "x \<in> set (m # xs) \<Longrightarrow> \<not> key_less x (earliest m xs)"
proof (induction xs arbitrary: m x)
  case Nil
  then show ?case by (simp add: key_less_def)
next
  case (Cons y ys)
  let ?m = "if key_less y m then y else m"
  have le: "\<not> key_less ?m (earliest ?m ys)"
    using Cons.IH [where m = ?m and x = ?m] by simp
  from Cons.prems consider "x = m" | "x = y" | "x \<in> set ys" by auto
  then show ?case
  proof cases
    case 1
    with le show ?thesis by (auto simp: key_less_def split: if_splits)
  next
    case 2
    with le show ?thesis by (auto simp: key_less_def split: if_splits)
  next
    case 3
    then show ?thesis using Cons.IH [where m = ?m and x = x] by simp
  qed
qed

lemma heappop_Some:
  assumes "heappop q = Some (e, q')"
  shows "e \<in> set q" and "q' = remove1 e q"
    and "\<And>x. x \<in> set q \<Longrightarrow> ev_time e \<le> ev_time x"
    and "\<And>x. x \<in> set q \<Longrightarrow> \<not> key_less x e"
proof -
  from assms obtain m xs where q: "q = m # xs" and e: "e = earliest m xs" and q': "q' = remove1 e q"
    by (auto simp: heappop_def Let_def split: list.splits)
  show "e \<in> set q" using earliest_mem [of m xs] q e by simp
  show "q' = remove1 e q" by (rule q')
  show "\<And>x. x \<in> set q \<Longrightarrow> ev_time e \<le> ev_time x"
    using earliest_time q e by blast
  show "\<And>x. x \<in> set q \<Longrightarrow> \<not> key_less x e"
    using earliest_least q e by blast
qed

lemma heappop_None: "heappop q = None \<longleftrightarrow> q = []"
  by (simp add: heappop_def Let_def split: list.splits)

lemma step_Next:
  "step rnd s = Next s' \<Longrightarrow>
     \<exists>e q. heappop (heap s) = Some (e, q) \<and> dispatch rnd (ev_event e) (s\<lparr>now := ev_time e, heap := q\<rparr>) = Next s'"
  by (auto simp: step_def split: option.splits)

lemma step_Stop:
  "step rnd s = Stop s' \<Longrightarrow>
     \<exists>e q. heappop (heap s) = Some (e, q) \<and> dispatch rnd (ev_event e) (s\<lparr>now := ev_time e, heap := q\<rparr>) = Stop s'"
  by (auto simp: step_def split: option.splits)

lemma run_Suc_Next:
  "run rnd (Suc n) = Next s' \<Longrightarrow> \<exists>s. run rnd n = Next s \<and> step rnd s = Next s'"
  by (auto split: outcome.splits error.splits)

lemma run_Suc_Stop:
  "run rnd (Suc n) = Stop s' \<Longrightarrow>
     run rnd n = Stop s' \<or> (\<exists>s. run rnd n = Next s \<and> step rnd s = Stop s')"
  by (auto split: outcome.splits error.splits)

lemma run_invariant2:
  assumes init: "P initial"
    and nxt: "\<And>s s'. P s \<Longrightarrow> step rnd s = Next s' \<Longrightarrow> P s'"
    and stp: "\<And>s s'. P s \<Longrightarrow> step rnd s = Stop s' \<Longrightarrow> Q s'"
  shows "(run rnd n = Next s \<longrightarrow> P s) \<and> (run rnd n = Stop s \<longrightarrow> Q s)"
proof (induction n arbitrary: s)
  case 0
  then show ?case using init by simp
next
  case (Suc n)
  show ?case
  proof (intro conjI impI)
    assume "run rnd (Suc n) = Next s"
    then obtain s0 where "run rnd n = Next s0" "step rnd s0 = Next s"
      using run_Suc_Next by blast
    then show "P s" using Suc.IH [of s0] nxt by blast
  next
    assume "run rnd (Suc n) = Stop s"
    then consider "run rnd n = Stop s" | s0 where "run rnd n = Next s0" "step rnd s0 = Stop s"
      using run_Suc_Stop by blast
    then show "Q s"
    proof cases
      case 1
      then show ?thesis using Suc.IH by blast
    next
      case 2
      then show ?thesis using Suc.IH [of s0] stp by blast
    qed
  qed
qed

lemma run_invariant:
  assumes "P initial"
    and "\<And>s s'. P s \<Longrightarrow> step rnd s = Next s' \<or> step rnd s = Stop s' \<Longrightarrow> P s'"
  shows "run rnd n = Next s \<or> run rnd n = Stop s \<Longrightarrow> P s"
  using run_invariant2 [where P = P and Q = P and rnd = rnd and n = n and s = s] assms
  by blast

subsection \<open>The lanes stay well-formed\<close>

lemma schedule_fields [simp]:
  "now (schedule p d ev s) = now s"
  "checkout_lanes (schedule p d ev s) = checkout_lanes s"
  "active_lanes (schedule p d ev s) = active_lanes s"
  "waiting_times (schedule p d ev s) = waiting_times s"
  "service_times (schedule p d ev s) = service_times s"
  "average_queue_lengths (schedule p d ev s) = average_queue_lengths s"
  "queue_record_times (schedule p d ev s) = queue_record_times s"
  "stdout (schedule p d ev s) = stdout s"
  "draws (schedule p d ev s) = draws s"
  "heap (schedule p d ev s) =
     heap s @ [\<lparr>ev_time = now s + d, ev_prio = p, ev_id = eid s, ev_event = ev\<rparr>]"
  "eid (schedule p d ev s) = eid s + 1"
  by (simp_all add: schedule_def)

lemma trigger_put_fields [simp]:
  "now (trigger_put li s) = now s"
  "active_lanes (trigger_put li s) = active_lanes s"
  "waiting_times (trigger_put li s) = waiting_times s"
  "service_times (trigger_put li s) = service_times s"
  "average_queue_lengths (trigger_put li s) = average_queue_lengths s"
  "queue_record_times (trigger_put li s) = queue_record_times s"
  "stdout (trigger_put li s) = stdout s"
  "draws (trigger_put li s) = draws s"
  "length (checkout_lanes (trigger_put li s)) = length (checkout_lanes s)"
  by (simp_all add: trigger_put_def Let_def split: list.splits)

lemma trigger_put_load [simp]:
  "load (checkout_lanes (trigger_put li s) ! j) = load (checkout_lanes s ! j)"
  by (cases "j = li") (auto simp: trigger_put_def Let_def load_def split: list.splits)

lemma request_fields [simp]:
  "now (request f s) = now s"
  "active_lanes (request f s) = active_lanes s"
  "waiting_times (request f s) = waiting_times s"
  "service_times (request f s) = service_times s"
  "average_queue_lengths (request f s) = average_queue_lengths s"
  "queue_record_times (request f s) = queue_record_times s"
  "stdout (request f s) = stdout s"
  "draws (request f s) = draws s"
  "length (checkout_lanes (request f s)) = length (checkout_lanes s)"
  by (simp_all add: request_def Let_def)

lemma request_load_other:
  "j \<noteq> lane_number f \<Longrightarrow> load (checkout_lanes (request f s) ! j) = load (checkout_lanes s ! j)"
  by (simp add: request_def Let_def)

lemma release_fields [simp]:
  "now (release f s) = now s"
  "active_lanes (release f s) = active_lanes s"
  "waiting_times (release f s) = waiting_times s"
  "service_times (release f s) = service_times s"
  "average_queue_lengths (release f s) = average_queue_lengths s"
  "queue_record_times (release f s) = queue_record_times s"
  "stdout (release f s) = stdout s"
  "draws (release f s) = draws s"
  "length (checkout_lanes (release f s)) = length (checkout_lanes s)"
  by (simp_all add: release_def Let_def)

lemma length_remove1_le: "length (remove1 x xs) \<le> length xs"
  by (induction xs) auto

lemma release_load_le:
  "load (checkout_lanes (release f s) ! j) \<le> load (checkout_lanes s ! j)"
proof (cases "j = lane_number f \<and> j < length (checkout_lanes s)")
  case True
  then show ?thesis
    by (simp add: release_def Let_def load_def length_remove1_le)
next
  case False
  then show ?thesis
    by (auto simp: release_def Let_def list_update_beyond not_less)
qed

lemma manage_checkouts_Inr:
  assumes "manage_checkouts s = Inr s'"
  shows "checkout_lanes s' = checkout_lanes s"
    and "now s' = now s" and "heap s' = heap s" and "eid s' = eid s" and "draws s' = draws s"
    and "waiting_times s' = waiting_times s" and "service_times s' = service_times s"
    and "average_queue_lengths s' = average_queue_lengths s"
    and "queue_record_times s' = queue_record_times s"
    and "setup_customer_id s' = setup_customer_id s"
    and "active_lanes s' = active_lanes s \<or> active_lanes s' = 2 \<or> active_lanes s' = 3"
  using assms
  by (auto simp: manage_checkouts_def Let_def lane_load_def split: sum.splits if_splits)

lemma manage_checkouts_lanes_ok:
  assumes "manage_checkouts s = Inr s'" and "lanes_ok s"
  shows "lanes_ok s'"
  using assms manage_checkouts_Inr [OF assms(1)]
  by (auto simp: lanes_ok_def NUM_CHECKOUT_LANES_def)

lemma manage_checkouts_total:
  "lanes_ok s \<Longrightarrow> \<exists>s'. manage_checkouts s = Inr s'"
  by (auto simp: manage_checkouts_def Let_def lane_load_def lanes_ok_def NUM_CHECKOUT_LANES_def)

lemma update_queue_stats_Inr:
  assumes "update_queue_stats s = Inr s'"
  shows "checkout_lanes s' = checkout_lanes s" and "active_lanes s' = active_lanes s"
    and "now s' = now s" and "heap s' = heap s" and "eid s' = eid s" and "draws s' = draws s"
    and "waiting_times s' = waiting_times s" and "service_times s' = service_times s"
    and "stdout s' = stdout s"
    and "setup_customer_id s' = setup_customer_id s"
  using assms
  by (auto simp: update_queue_stats_def Let_def split: if_splits)

lemma min_by_key_mem: "min_by_key key b xs \<in> set (b # xs)"
  by (induction xs arbitrary: b) auto

lemma choose_lane_number_less:
  assumes "choose_lane_number s = Inr i"
  shows "i < active_lanes s" and "i < length (checkout_lanes s)"
proof -
  from assms have pos: "0 < active_lanes s" and le: "active_lanes s \<le> length (checkout_lanes s)"
    and i: "i = min_by_key (\<lambda>i. load (checkout_lanes s ! i)) 0 [1..<active_lanes s]"
    by (auto simp: choose_lane_number_def split: if_splits)
  have "i \<in> set (0 # [1..<active_lanes s])"
    unfolding i by (rule min_by_key_mem)
  with pos show "i < active_lanes s" by auto
  with le show "i < length (checkout_lanes s)" by simp
qed

lemma customer_Inr:
  assumes "customer cid s = Inr s'"
  obtains s1 s2 i where
    "manage_checkouts (s\<lparr>stdout := stdout s @ [Arrives cid (now s)]\<rparr>) = Inr s1"
    "update_queue_stats s1 = Inr s2"
    "choose_lane_number s2 = Inr i"
    "s' = request \<lparr>customer_id = cid, arrival_time = now s, lane_number = i\<rparr>
            (s2\<lparr>stdout := stdout s2 @ [Joins cid (i + 1) (load (checkout_lanes s2 ! i))]\<rparr>)"
  using assms
  by (auto simp: customer_def Let_def lane_load_def split: sum.splits if_splits)

lemma customer_lanes_ok:
  assumes c: "customer cid s = Inr s'" and ok: "lanes_ok s"
  shows "lanes_ok s'"
proof -
  from c obtain s1 s2 i where
    m: "manage_checkouts (s\<lparr>stdout := stdout s @ [Arrives cid (now s)]\<rparr>) = Inr s1"
    and u: "update_queue_stats s1 = Inr s2"
    and ch: "choose_lane_number s2 = Inr i"
    and s': "s' = request \<lparr>customer_id = cid, arrival_time = now s, lane_number = i\<rparr>
            (s2\<lparr>stdout := stdout s2 @ [Joins cid (i + 1) (load (checkout_lanes s2 ! i))]\<rparr>)"
    by (rule customer_Inr)
  from ok have "lanes_ok (s\<lparr>stdout := stdout s @ [Arrives cid (now s)]\<rparr>)"
    by (simp add: lanes_ok_def)
  with m have ok1: "lanes_ok s1" by (rule manage_checkouts_lanes_ok)
  with u have ok2: "lanes_ok s2"
    using update_queue_stats_Inr(1,2) [OF u] by (simp add: lanes_ok_def)
  from ch have i: "i < active_lanes s2" by (rule choose_lane_number_less)
  show ?thesis
  proof (cases "active_lanes s2 = 1")
    case True
    with i have "i = 0" by simp
    then have "load (checkout_lanes s' ! 1) = load (checkout_lanes s2 ! 1)"
      unfolding s' by (simp add: request_load_other)
    with ok2 show ?thesis unfolding s' by (simp add: lanes_ok_def)
  next
    case False
    with ok2 show ?thesis unfolding s' by (simp add: lanes_ok_def)
  qed
qed

lemma customer_total:
  assumes "lanes_ok s"
  shows "\<exists>s'. customer cid s = Inr s'"
proof -
  from assms have ok0: "lanes_ok (s\<lparr>stdout := stdout s @ [Arrives cid (now s)]\<rparr>)"
    by (simp add: lanes_ok_def)
  then obtain s1 where m: "manage_checkouts (s\<lparr>stdout := stdout s @ [Arrives cid (now s)]\<rparr>) = Inr s1"
    using manage_checkouts_total by blast
  with ok0 have ok1: "lanes_ok s1" using manage_checkouts_lanes_ok by blast
  then obtain s2 where u: "update_queue_stats s1 = Inr s2"
    by (auto simp: update_queue_stats_def Let_def lanes_ok_def)
  have ok2: "lanes_ok s2"
    using ok1 update_queue_stats_Inr(1,2) [OF u] by (simp add: lanes_ok_def)
  then obtain i where ch: "choose_lane_number s2 = Inr i"
    by (auto simp: choose_lane_number_def lanes_ok_def)
  then have "i < length (checkout_lanes s2)" by (rule choose_lane_number_less)
  with m u ch show ?thesis
    by (simp add: customer_def Let_def lane_load_def)
qed

lemma dispatch_lanes_ok:
  assumes "dispatch rnd ev s = Next s' \<or> dispatch rnd ev s = Stop s'" and "lanes_ok s"
  shows "lanes_ok s'"
proof (cases ev)
  case (InitializeCustomer cid)
  with assms show ?thesis
    by (auto simp: dispatch_def lift_def split: sum.splits dest: customer_lanes_ok)
next
  case (CheckoutProcess f)
  with assms have s': "s' = customer_finish f s" by (simp add: dispatch_def)
  have "load (checkout_lanes s' ! 1) \<le> load (checkout_lanes s ! 1)"
    unfolding s' customer_finish_def by (simp add: release_load_le)
  with assms(2) show ?thesis
    unfolding s' customer_finish_def by (auto simp: lanes_ok_def)
next
  case (Release li)
  with assms show ?thesis by (auto simp: dispatch_def lanes_ok_def)
qed (use assms in \<open>auto simp: dispatch_def lift_def lanes_ok_def setup_loop_def setup_resume_def
       Let_def customer_granted_def add_waiting_time_def checkout_customer_def
       checkout_customer_resume_def split: sum.splits if_splits\<close>)

lemma step_lanes_ok:
  assumes "step rnd s = Next s' \<or> step rnd s = Stop s'" and "lanes_ok s"
  shows "lanes_ok s'"
proof -
  from assms(1) obtain e :: entry and q where
    d: "dispatch rnd (ev_event e) (s\<lparr>now := ev_time e, heap := q\<rparr>) = Next s' \<or>
        dispatch rnd (ev_event e) (s\<lparr>now := ev_time e, heap := q\<rparr>) = Stop s'"
    using step_Next step_Stop by blast
  from assms(2) have "lanes_ok (s\<lparr>now := ev_time e, heap := q\<rparr>)"
    by (simp add: lanes_ok_def)
  with d show ?thesis by (rule dispatch_lanes_ok)
qed

lemma lanes_ok_initial: "lanes_ok initial"
  by (simp add: lanes_ok_def initial_def store_instance_def NUM_CHECKOUT_LANES_def load_def)

lemma run_lanes_ok: "run rnd n = Next s \<or> run rnd n = Stop s \<Longrightarrow> lanes_ok s"
  using lanes_ok_initial step_lanes_ok by (rule run_invariant [where P = lanes_ok]) 

subsection \<open>Routing\<close>

lemma min_by_key_le: "x \<in> set (b # xs) \<Longrightarrow> key (min_by_key key b xs) \<le> key x"
proof (induction xs arbitrary: b x)
  case Nil
  then show ?case by simp
next
  case (Cons y ys)
  let ?b = "if key y < key b then y else b"
  have b: "key (min_by_key key ?b ys) \<le> key ?b"
    using Cons.IH [where b = ?b and x = ?b] by simp
  from Cons.prems consider "x = b" | "x = y" | "x \<in> set ys" by auto
  then show ?case
  proof cases
    case 1
    with b show ?thesis by (auto split: if_splits)
  next
    case 2
    with b show ?thesis by (auto split: if_splits)
  next
    case 3
    then show ?thesis using Cons.IH [where b = ?b and x = x] by simp
  qed
qed

lemma min_by_key_changed:
  "min_by_key key b xs \<noteq> b \<Longrightarrow> key (min_by_key key b xs) < key b"
proof (induction xs arbitrary: b)
  case Nil
  then show ?case by simp
next
  case (Cons y ys)
  show ?case
  proof (cases "key y < key b")
    case True
    have "key (min_by_key key y ys) \<le> key y"
      by (rule min_by_key_le) simp
    with True show ?thesis by simp
  next
    case False
    with Cons show ?thesis by simp
  qed
qed

lemma min_by_key_first:
  "sorted_wrt (<) (b # xs) \<Longrightarrow> j \<in> set (b # xs) \<Longrightarrow> j < min_by_key key b xs \<Longrightarrow>
     key (min_by_key key b xs) < key j"
proof (induction xs arbitrary: b j)
  case Nil
  then show ?case by simp
next
  case (Cons y ys)
  let ?b = "if key y < key b then y else b"
  let ?r = "min_by_key key ?b ys"
  from Cons.prems(1) have sorted: "sorted_wrt (<) (?b # ys)" by auto
  have r: "?r \<in> set (?b # ys)" by (rule min_by_key_mem)
  have le: "key ?r \<le> key ?b" by (rule min_by_key_le) simp
  from Cons.prems(3) have jr: "j < ?r" by simp
  from Cons.prems(2) consider "j = ?b" | "j \<in> set ys" | "j \<noteq> ?b" "j = b \<or> j = y" by auto
  then have "key ?r < key j"
  proof cases
    case 1
    then show ?thesis using Cons.IH [OF sorted _ jr, of ] by simp
  next
    case 2
    then show ?thesis using Cons.IH [OF sorted _ jr] by simp
  next
    case 3
    show ?thesis
    proof (cases "key y < key b")
      case True
      with 3 have "j = b" by auto
      with le True show ?thesis by simp
    next
      case False
      with 3 have j: "j = y" by auto
      from False have b: "?b = b" by simp
      from Cons.prems(1) have "b < y" by simp
      with jr j b have "?r \<noteq> ?b" by auto
      then have "key ?r < key ?b" by (rule min_by_key_changed)
      with False j show ?thesis by simp
    qed
  qed
  then show ?case by simp
qed

lemma choose_lane_number_min:
  assumes "choose_lane_number s = Inr i"
  shows "\<forall>j<active_lanes s. load (checkout_lanes s ! i) \<le> load (checkout_lanes s ! j)"
    and "\<forall>j<i. load (checkout_lanes s ! i) < load (checkout_lanes s ! j)"
proof -
  let ?key = "\<lambda>i. load (checkout_lanes s ! i)"
  from assms have pos: "0 < active_lanes s"
    and i: "i = min_by_key ?key 0 [1..<active_lanes s]"
    by (auto simp: choose_lane_number_def split: if_splits)
  have set: "set (0 # [1..<active_lanes s]) = {..<active_lanes s}"
    using pos by auto
  show "\<forall>j<active_lanes s. load (checkout_lanes s ! i) \<le> load (checkout_lanes s ! j)"
  proof (intro allI impI)
    fix j assume "j < active_lanes s"
    then have "j \<in> set (0 # [1..<active_lanes s])" using set by simp
    then show "?key i \<le> ?key j" unfolding i by (rule min_by_key_le)
  qed
  have sorted: "sorted_wrt (<) (0 # [1..<active_lanes s])"
    by simp
  have less: "i < active_lanes s" using assms by (rule choose_lane_number_less)
  show "\<forall>j<i. load (checkout_lanes s ! i) < load (checkout_lanes s ! j)"
  proof (intro allI impI)
    fix j assume j: "j < i"
    with less have "j \<in> set (0 # [1..<active_lanes s])" using set by simp
    with sorted show "?key i < ?key j" using j unfolding i by (rule min_by_key_first)
  qed
qed

lemma choose_lane_number_total:
  "lanes_ok s \<Longrightarrow> \<exists>i. choose_lane_number s = Inr i"
  by (auto simp: choose_lane_number_def lanes_ok_def)

lemma manage_checkouts_active_lanes_cong:
  assumes "manage_checkouts a = Inr a'" and "manage_checkouts b = Inr b'"
    and "checkout_lanes a = checkout_lanes b" and "active_lanes a = active_lanes b"
  shows "active_lanes a' = active_lanes b'"
  using assms
  by (auto simp: manage_checkouts_def Let_def lane_load_def split: sum.splits if_splits)

lemma choose_lane_number_cong:
  "checkout_lanes a = checkout_lanes b \<Longrightarrow> active_lanes a = active_lanes b \<Longrightarrow>
     choose_lane_number a = choose_lane_number b"
  by (simp add: choose_lane_number_def)

lemma request_load_self:
  assumes "lane_number f < length (checkout_lanes s)"
  shows "load (checkout_lanes (request f s) ! lane_number f) =
         load (checkout_lanes s ! lane_number f) + 1"
  using assms by (simp add: request_def Let_def) (simp add: load_def)

text \<open>
  C7. When the next event of a run is the start of a customer, the step succeeds and
  the customer joins the lane \<open>i\<close> that the router returns after the capacity
  re-evaluation (the program prints the lane as \<open>i + 1\<close>, and the load of lane \<open>i\<close> grows
  by one). The router does not raise; \<open>i\<close> is an active lane; no active lane has a
  smaller load (users plus queue); and every lane with a lower index has a strictly
  larger load, so ties go to the lowest index.
\<close>

theorem router_least_loaded_active_lane:
  assumes "run rnd n = Next s" and "next_event s = Some (InitializeCustomer cid)"
  shows "\<exists>s' s1 i. run rnd (Suc n) = Next s' \<and> manage_checkouts s = Inr s1 \<and>
           choose_lane_number s1 = Inr i \<and> i < active_lanes s1 \<and>
           (\<forall>j<active_lanes s1. load (checkout_lanes s1 ! i) \<le> load (checkout_lanes s1 ! j)) \<and>
           (\<forall>j<i. load (checkout_lanes s1 ! i) < load (checkout_lanes s1 ! j)) \<and>
           last (stdout s') = Joins cid (i + 1) (load (checkout_lanes s1 ! i)) \<and>
           load (checkout_lanes s' ! i) = load (checkout_lanes s ! i) + 1"
proof -
  from assms(2) obtain e :: entry and q where pop: "heappop (heap s) = Some (e, q)"
    and ev: "ev_event e = InitializeCustomer cid"
    by (auto simp: next_event_def split: option.splits)
  let ?s0 = "s\<lparr>now := ev_time e, heap := q\<rparr>"
  from assms(1) have ok: "lanes_ok s" using run_lanes_ok by blast
  then have "lanes_ok ?s0" by (simp add: lanes_ok_def)
  then obtain s' where c: "customer cid ?s0 = Inr s'"
    using customer_total by blast
  with assms(1) pop ev have r: "run rnd (Suc n) = Next s'"
    by (simp add: step_def dispatch_def lift_def)
  from ok obtain s1 where m: "manage_checkouts s = Inr s1"
    using manage_checkouts_total by blast
  from c obtain t1 t2 i where
    m0: "manage_checkouts (?s0\<lparr>stdout := stdout ?s0 @ [Arrives cid (now ?s0)]\<rparr>) = Inr t1"
    and u: "update_queue_stats t1 = Inr t2"
    and ch: "choose_lane_number t2 = Inr i"
    and s': "s' = request \<lparr>customer_id = cid, arrival_time = now ?s0, lane_number = i\<rparr>
            (t2\<lparr>stdout := stdout t2 @ [Joins cid (i + 1) (load (checkout_lanes t2 ! i))]\<rparr>)"
    by (rule customer_Inr)
  have act: "active_lanes t2 = active_lanes s1"
    using manage_checkouts_active_lanes_cong [OF m0 m] update_queue_stats_Inr(2) [OF u] by simp
  have lanes: "checkout_lanes t2 = checkout_lanes s1"
    using manage_checkouts_Inr(1) [OF m0] manage_checkouts_Inr(1) [OF m]
      update_queue_stats_Inr(1) [OF u] by simp
  have lanes_s: "checkout_lanes s1 = checkout_lanes s"
    using manage_checkouts_Inr(1) [OF m] .
  from ch have ch1: "choose_lane_number s1 = Inr i"
    using choose_lane_number_cong [OF lanes act] by simp
  from ch have i: "i < length (checkout_lanes t2)" by (rule choose_lane_number_less)
  have "last (stdout s') = Joins cid (i + 1) (load (checkout_lanes s1 ! i))"
    unfolding s' using lanes by simp
  moreover have "load (checkout_lanes s' ! i) = load (checkout_lanes s ! i) + 1"
    unfolding s' using request_load_self [of "\<lparr>customer_id = cid, arrival_time = now ?s0,
      lane_number = i\<rparr>" "t2\<lparr>stdout := stdout t2 @
        [Joins cid (i + 1) (load (checkout_lanes t2 ! i))]\<rparr>"] i lanes lanes_s
    by simp
  ultimately show ?thesis
    using r m ch1 choose_lane_number_less(1) [OF ch1] choose_lane_number_min [OF ch1]
    by blast
qed

text \<open>
  C10. In every state a run reaches, \<open>active_lanes\<close> is at least one, so the division
  in \<open>update_queue_stats\<close> does not raise \<^verbatim>\<open>ZeroDivisionError\<close>: the call returns a state.
\<close>

theorem active_lanes_positive:
  assumes "run rnd n = Next s \<or> run rnd n = Stop s"
  shows "1 \<le> active_lanes s \<and> (\<exists>s'. update_queue_stats s = Inr s')"
proof -
  from assms have "lanes_ok s" by (rule run_lanes_ok)
  then show ?thesis
    by (auto simp: lanes_ok_def update_queue_stats_def Let_def)
qed

subsection \<open>Opening lanes\<close>

lemma dispatch_active_lanes:
  assumes "dispatch rnd ev s = Next s' \<or> dispatch rnd ev s = Stop s'"
    and "\<And>cid. ev \<noteq> InitializeCustomer cid"
  shows "active_lanes s' = active_lanes s"
  using assms
  by (cases ev)
     (auto simp: dispatch_def lift_def setup_loop_def setup_resume_def Let_def
        customer_granted_def add_waiting_time_def checkout_customer_def
        checkout_customer_resume_def customer_finish_def split: sum.splits if_splits)

lemma manage_checkouts_to_three:
  assumes "manage_checkouts s = Inr s'" and "lanes_ok s"
    and "active_lanes s' = 3" and "active_lanes s \<noteq> 3"
  shows "active_lanes s = 2 \<and> MAX_QUEUE \<le> load (checkout_lanes s ! 1)"
  using assms
  by (auto simp: manage_checkouts_def Let_def lane_load_def lanes_ok_def MAX_QUEUE_def
      NUM_CHECKOUT_LANES_def split: sum.splits if_splits)

text \<open>
  C6. Whenever a step of a run takes \<open>active_lanes\<close> to three from another value, two
  lanes were active before the step and the load of the second lane was at least
  \<open>MAX_QUEUE\<close>: the third lane never opens before the second.
\<close>

theorem lane_three_only_after_lane_two:
  assumes "run rnd n = Next s"
    and "run rnd (Suc n) = Next s' \<or> run rnd (Suc n) = Stop s'"
    and "active_lanes s' = 3" and "active_lanes s \<noteq> 3"
  shows "active_lanes s = 2 \<and> MAX_QUEUE \<le> load (checkout_lanes s ! 1)"
proof -
  from assms(1) have ok: "lanes_ok s" using run_lanes_ok by blast
  from assms(1,2) have "step rnd s = Next s' \<or> step rnd s = Stop s'"
    by (auto split: outcome.splits error.splits)
  then obtain e :: entry and q where
    d: "dispatch rnd (ev_event e) (s\<lparr>now := ev_time e, heap := q\<rparr>) = Next s' \<or>
        dispatch rnd (ev_event e) (s\<lparr>now := ev_time e, heap := q\<rparr>) = Stop s'"
    using step_Next step_Stop by blast
  let ?s0 = "s\<lparr>now := ev_time e, heap := q\<rparr>"
  show ?thesis
  proof (cases "\<exists>cid. ev_event e = InitializeCustomer cid")
    case True
    then obtain cid where ev: "ev_event e = InitializeCustomer cid" by blast
    with d have c: "customer cid ?s0 = Inr s'"
      by (auto simp: dispatch_def lift_def split: sum.splits)
    then obtain s1 s2 i where
      m: "manage_checkouts (?s0\<lparr>stdout := stdout ?s0 @ [Arrives cid (now ?s0)]\<rparr>) = Inr s1"
      and u: "update_queue_stats s1 = Inr s2"
      and s': "s' = request \<lparr>customer_id = cid, arrival_time = now ?s0, lane_number = i\<rparr>
            (s2\<lparr>stdout := stdout s2 @ [Joins cid (i + 1) (load (checkout_lanes s2 ! i))]\<rparr>)"
      by (rule customer_Inr)
    have a: "active_lanes s1 = 3"
      using assms(3) update_queue_stats_Inr(2) [OF u] unfolding s' by simp
    let ?s00 = "?s0\<lparr>stdout := stdout ?s0 @ [Arrives cid (now ?s0)]\<rparr>"
    have "lanes_ok ?s00" using ok by (simp add: lanes_ok_def)
    with m have "active_lanes ?s00 = 2 \<and> MAX_QUEUE \<le> load (checkout_lanes ?s00 ! 1)"
      using a assms(4) by (intro manage_checkouts_to_three) simp_all
    then show ?thesis by simp
  next
    case False
    with d have "active_lanes s' = active_lanes ?s0"
      by (intro dispatch_active_lanes) auto
    with assms(3,4) show ?thesis by simp
  qed
qed

text \<open>
  C8. When the next event of a run is the start of a customer, the step succeeds and
  appends exactly one observation: its value is the total load of the lanes that are
  active after \<open>manage_checkouts\<close>, taken before the customer joins a lane, divided by
  that number of active lanes, and its timestamp is the clock of the step, which is
  the arrival time.
\<close>

theorem queue_observation_at_arrival:
  assumes "run rnd n = Next s" and "next_event s = Some (InitializeCustomer cid)"
  shows "\<exists>s' s1. run rnd (Suc n) = Next s' \<and> manage_checkouts s = Inr s1 \<and>
           average_queue_lengths s' = average_queue_lengths s @
             [real (sum_list (map load (take (active_lanes s1) (checkout_lanes s)))) /
              real (active_lanes s1)] \<and>
           queue_record_times s' = queue_record_times s @ [now s']"
proof -
  from assms(2) obtain e :: entry and q where pop: "heappop (heap s) = Some (e, q)"
    and ev: "ev_event e = InitializeCustomer cid"
    by (auto simp: next_event_def split: option.splits)
  let ?s0 = "s\<lparr>now := ev_time e, heap := q\<rparr>"
  from assms(1) have ok: "lanes_ok s" using run_lanes_ok by blast
  then have ok0: "lanes_ok ?s0" by (simp add: lanes_ok_def)
  then obtain s' where c: "customer cid ?s0 = Inr s'"
    using customer_total by blast
  with assms(1) pop ev have r: "run rnd (Suc n) = Next s'"
    by (simp add: step_def dispatch_def lift_def)
  from ok obtain s1 where m: "manage_checkouts s = Inr s1"
    using manage_checkouts_total by blast
  from c obtain t1 t2 i where
    m0: "manage_checkouts (?s0\<lparr>stdout := stdout ?s0 @ [Arrives cid (now ?s0)]\<rparr>) = Inr t1"
    and u: "update_queue_stats t1 = Inr t2"
    and s': "s' = request \<lparr>customer_id = cid, arrival_time = now ?s0, lane_number = i\<rparr>
            (t2\<lparr>stdout := stdout t2 @ [Joins cid (i + 1) (load (checkout_lanes t2 ! i))]\<rparr>)"
    by (rule customer_Inr)
  have act: "active_lanes t1 = active_lanes s1"
    using m0 m by (rule manage_checkouts_active_lanes_cong) simp_all
  note t1 = manage_checkouts_Inr [OF m0]
  from u have t2: "average_queue_lengths t2 = average_queue_lengths t1 @
        [real (sum_list (map load (take (active_lanes t1) (checkout_lanes t1)))) /
         real (active_lanes t1)]"
      "queue_record_times t2 = queue_record_times t1 @ [now t1]" "now t2 = now t1"
    by (auto simp: update_queue_stats_def Let_def split: if_splits)
  have "average_queue_lengths s' = average_queue_lengths s @
             [real (sum_list (map load (take (active_lanes s1) (checkout_lanes s)))) /
              real (active_lanes s1)]"
    unfolding s' using t2(1) t1(1,8) act by simp
  moreover have "queue_record_times s' = queue_record_times s @ [now s']"
    unfolding s' using t2(2,3) t1(2,9) by simp
  ultimately show ?thesis using r m by blast
qed

subsection \<open>The clock and the recorded times\<close>

lemma event_ok_mono: "event_ok t ev \<Longrightarrow> t \<le> t' \<Longrightarrow> event_ok t' ev"
  by (cases ev) auto

lemma time_ok_schedule:
  "time_ok s \<Longrightarrow> 0 \<le> d \<Longrightarrow> event_ok (now s) ev \<Longrightarrow> time_ok (schedule p d ev s)"
  by (auto simp: time_ok_def)

lemma time_ok_trigger_put:
  assumes "time_ok s"
  shows "time_ok (trigger_put li s)"
proof (cases "li < length (checkout_lanes s)")
  case False
  with assms show ?thesis by (simp add: trigger_put_def)
next
  case True
  let ?lane = "checkout_lanes s ! li"
  from True have mem: "?lane \<in> set (checkout_lanes s)" by simp
  show ?thesis
  proof (cases "queue ?lane")
    case Nil
    with assms True show ?thesis by (simp add: trigger_put_def)
  next
    case (Cons r rs)
    show ?thesis
    proof (cases "length (users ?lane) < capacity")
      case False
      with assms True Cons show ?thesis by (simp add: trigger_put_def)
    next
      case free: True
      let ?s1 = "s\<lparr>checkout_lanes :=
                     (checkout_lanes s)[li := \<lparr>users = users ?lane @ [r], queue = rs\<rparr>]\<rparr>"
      from assms mem Cons have r: "arrival_time r \<le> now s"
        and rs: "\<forall>f\<in>set rs. arrival_time f \<le> now s"
        by (auto simp: time_ok_def)
      have "\<forall>x\<in>set ((checkout_lanes s)[li := \<lparr>users = users ?lane @ [r], queue = rs\<rparr>]).
              \<forall>f\<in>set (queue x). arrival_time f \<le> now s"
      proof
        fix x assume "x \<in> set ((checkout_lanes s)[li := \<lparr>users = users ?lane @ [r], queue = rs\<rparr>])"
        then have "x = \<lparr>users = users ?lane @ [r], queue = rs\<rparr> \<or> x \<in> set (checkout_lanes s)"
          using set_update_subset_insert by fastforce
        then show "\<forall>f\<in>set (queue x). arrival_time f \<le> now s"
          using rs assms by (auto simp: time_ok_def)
      qed
      with assms have "time_ok ?s1" by (simp add: time_ok_def)
      then have "time_ok (schedule NORMAL 0 (Request r) ?s1)"
        using r by (intro time_ok_schedule) simp_all
      with True Cons free show ?thesis by (simp add: trigger_put_def)
    qed
  qed
qed

lemma time_ok_request:
  assumes "time_ok s" and "arrival_time f \<le> now s"
  shows "time_ok (request f s)"
proof -
  let ?li = "lane_number f"
  let ?lane = "checkout_lanes s ! ?li"
  let ?new = "?lane\<lparr>queue := queue ?lane @ [f]\<rparr>"
  have "\<forall>x\<in>set ((checkout_lanes s)[?li := ?new]). \<forall>g\<in>set (queue x). arrival_time g \<le> now s"
  proof
    fix x assume x: "x \<in> set ((checkout_lanes s)[?li := ?new])"
    show "\<forall>g\<in>set (queue x). arrival_time g \<le> now s"
    proof (cases "?li < length (checkout_lanes s)")
      case True
      then have "?lane \<in> set (checkout_lanes s)" by simp
      moreover from x have "x = ?new \<or> x \<in> set (checkout_lanes s)"
        using set_update_subset_insert by fastforce
      ultimately show ?thesis using assms by (auto simp: time_ok_def)
    next
      case False
      with x have "x \<in> set (checkout_lanes s)" by (simp add: list_update_beyond)
      with assms show ?thesis by (auto simp: time_ok_def)
    qed
  qed
  with assms(1) have "time_ok (s\<lparr>checkout_lanes := (checkout_lanes s)[?li := ?new]\<rparr>)"
    by (simp add: time_ok_def)
  then show ?thesis
    unfolding request_def Let_def by (rule time_ok_trigger_put)
qed

lemma time_ok_release:
  assumes "time_ok s"
  shows "time_ok (release f s)"
proof -
  let ?li = "lane_number f"
  let ?lane = "checkout_lanes s ! ?li"
  let ?new = "?lane\<lparr>users := remove1 f (users ?lane)\<rparr>"
  have "\<forall>x\<in>set ((checkout_lanes s)[?li := ?new]). \<forall>g\<in>set (queue x). arrival_time g \<le> now s"
  proof
    fix x assume x: "x \<in> set ((checkout_lanes s)[?li := ?new])"
    show "\<forall>g\<in>set (queue x). arrival_time g \<le> now s"
    proof (cases "?li < length (checkout_lanes s)")
      case True
      then have "?lane \<in> set (checkout_lanes s)" by simp
      moreover from x have "x = ?new \<or> x \<in> set (checkout_lanes s)"
        using set_update_subset_insert by fastforce
      ultimately show ?thesis using assms by (auto simp: time_ok_def)
    next
      case False
      with x have "x \<in> set (checkout_lanes s)" by (simp add: list_update_beyond)
      with assms show ?thesis by (auto simp: time_ok_def)
    qed
  qed
  with assms have "time_ok (s\<lparr>checkout_lanes := (checkout_lanes s)[?li := ?new]\<rparr>)"
    by (simp add: time_ok_def)
  then show ?thesis
    unfolding release_def Let_def by (intro time_ok_schedule) simp_all
qed

lemma time_ok_customer:
  assumes c: "customer cid s = Inr s'" and ok: "time_ok s"
  shows "time_ok s'"
proof -
  from c obtain s1 s2 i where
    m: "manage_checkouts (s\<lparr>stdout := stdout s @ [Arrives cid (now s)]\<rparr>) = Inr s1"
    and u: "update_queue_stats s1 = Inr s2"
    and s': "s' = request \<lparr>customer_id = cid, arrival_time = now s, lane_number = i\<rparr>
            (s2\<lparr>stdout := stdout s2 @ [Joins cid (i + 1) (load (checkout_lanes s2 ! i))]\<rparr>)"
    by (rule customer_Inr)
  note m' = manage_checkouts_Inr [OF m]
  note u' = update_queue_stats_Inr [OF u]
  have "time_ok (s2\<lparr>stdout := stdout s2 @ [Joins cid (i + 1) (load (checkout_lanes s2 ! i))]\<rparr>)"
    using ok m'(1,2,3,6,7) u'(1,3,4,7,8) by (simp add: time_ok_def)
  then show ?thesis
    unfolding s' using m'(2) u'(3) by (intro time_ok_request) simp_all
qed

lemma dispatch_time_ok:
  assumes d: "dispatch rnd ev s = Next s' \<or> dispatch rnd ev s = Stop s'"
    and ok: "time_ok s" and ev: "event_ok (now s) ev"
  shows "time_ok s'"
proof (cases ev)
  case InitializeSetup
  with d ok show ?thesis
    by (auto simp: dispatch_def lift_def setup_loop_def Let_def time_ok_def
        split: sum.splits if_splits)
next
  case Until
  with d ok show ?thesis by (simp add: dispatch_def)
next
  case SetupTimeout
  let ?s1 = "schedule URGENT 0 (InitializeCustomer (setup_customer_id s + 1))
               (s\<lparr>setup_customer_id := setup_customer_id s + 1\<rparr>)"
  from ok have "time_ok (s\<lparr>setup_customer_id := setup_customer_id s + 1\<rparr>)"
    by (simp add: time_ok_def)
  then have ok1: "time_ok ?s1" by (intro time_ok_schedule) simp_all
  from SetupTimeout d have "setup_loop rnd ?s1 = Inr s'"
    by (auto simp: dispatch_def lift_def setup_resume_def Let_def split: sum.splits)
  then show ?thesis
    using ok1 by (auto simp: setup_loop_def Let_def time_ok_def split: if_splits)
next
  case SetupProcess
  with d ok show ?thesis by (simp add: dispatch_def)
next
  case (InitializeCustomer cid)
  with d ok show ?thesis
    by (auto simp: dispatch_def lift_def split: sum.splits dest: time_ok_customer)
next
  case (Request f)
  with ev have arr: "arrival_time f \<le> now s" by simp
  let ?w = "now s - arrival_time f"
  let ?s1 = "(add_waiting_time ?w s)\<lparr>stdout := stdout s @ [Waited (customer_id f) ?w (lane_number f + 1)]\<rparr>"
  from ok arr have "time_ok ?s1" by (auto simp: time_ok_def add_waiting_time_def)
  then have "time_ok (schedule URGENT 0 (InitializeCheckout f) ?s1)"
    by (intro time_ok_schedule) (simp_all add: add_waiting_time_def)
  with Request d show ?thesis by (simp add: dispatch_def customer_granted_def Let_def)
next
  case (InitializeCheckout f)
  with d ok show ?thesis
    by (auto simp: dispatch_def lift_def checkout_customer_def Let_def time_ok_def
        split: sum.splits if_splits)
next
  case (CheckoutTimeout f st)
  with ev have st: "0 \<le> st" by simp
  let ?s1 = "s\<lparr>stdout := stdout s @ [CheckedOut (customer_id f) (lane_number f + 1) st],
          service_times := service_times s @ [st]\<rparr>"
  from ok st have "time_ok ?s1" by (auto simp: time_ok_def)
  then have "time_ok (schedule NORMAL 0 (CheckoutProcess f) ?s1)"
    by (intro time_ok_schedule) simp_all
  with CheckoutTimeout d show ?thesis by (simp add: dispatch_def checkout_customer_resume_def)
next
  case (CheckoutProcess f)
  from ok have "time_ok (release f s)" by (rule time_ok_release)
  then have "time_ok (schedule NORMAL 0 (CustomerProcess f) (release f s))"
    by (intro time_ok_schedule) simp_all
  with CheckoutProcess d show ?thesis by (simp add: dispatch_def customer_finish_def)
next
  case (Release li)
  with d ok show ?thesis by (auto simp: dispatch_def time_ok_trigger_put)
next
  case (CustomerProcess f)
  with d ok show ?thesis by (simp add: dispatch_def)
qed

lemma time_ok_pop:
  assumes ok: "time_ok s" and pop: "heappop (heap s) = Some (e, q)"
  shows "time_ok (s\<lparr>now := ev_time e, heap := q\<rparr>)"
    and "event_ok (ev_time e) (ev_event e)"
    and "now s \<le> ev_time e"
proof -
  note p = heappop_Some [OF pop]
  from ok p(1) show le: "now s \<le> ev_time e" by (simp add: time_ok_def)
  from ok p(1) have "event_ok (now s) (ev_event e)" by (simp add: time_ok_def)
  then show "event_ok (ev_time e) (ev_event e)" using le by (rule event_ok_mono)
  have "\<forall>x\<in>set q. ev_time e \<le> ev_time x \<and> event_ok (ev_time e) (ev_event x)"
  proof
    fix x assume "x \<in> set q"
    then have x: "x \<in> set (heap s)" using p(2) set_remove1_subset by fastforce
    then have "ev_time e \<le> ev_time x" by (rule p(3))
    moreover from ok x have "event_ok (now s) (ev_event x)" by (simp add: time_ok_def)
    then have "event_ok (ev_time e) (ev_event x)" using le by (rule event_ok_mono)
    ultimately show "ev_time e \<le> ev_time x \<and> event_ok (ev_time e) (ev_event x)" ..
  qed
  moreover have "\<forall>r\<in>set (checkout_lanes s). \<forall>f\<in>set (queue r). arrival_time f \<le> ev_time e"
    using ok le by (fastforce simp: time_ok_def)
  ultimately show "time_ok (s\<lparr>now := ev_time e, heap := q\<rparr>)"
    using ok by (simp add: time_ok_def)
qed

lemma step_time_ok:
  assumes "step rnd s = Next s' \<or> step rnd s = Stop s'" and "time_ok s"
  shows "time_ok s'"
proof -
  from assms(1) obtain e :: entry and q where pop: "heappop (heap s) = Some (e, q)" and
    d: "dispatch rnd (ev_event e) (s\<lparr>now := ev_time e, heap := q\<rparr>) = Next s' \<or>
        dispatch rnd (ev_event e) (s\<lparr>now := ev_time e, heap := q\<rparr>) = Stop s'"
    using step_Next step_Stop by blast
  have ok0: "time_ok (s\<lparr>now := ev_time e, heap := q\<rparr>)"
    using assms(2) pop by (rule time_ok_pop(1))
  have "event_ok (now (s\<lparr>now := ev_time e, heap := q\<rparr>)) (ev_event e)"
    using time_ok_pop(2) [OF assms(2) pop] by simp
  with d ok0 show ?thesis by (rule dispatch_time_ok)
qed

lemma time_ok_initial: "time_ok initial"
  by (auto simp: time_ok_def initial_def store_instance_def SIMULATION_TIME_def)

lemma run_time_ok: "run rnd n = Next s \<or> run rnd n = Stop s \<Longrightarrow> time_ok s"
  using time_ok_initial step_time_ok by (rule run_invariant [where P = time_ok])

text \<open>
  C9. In every state a run reaches, every recorded waiting time and every recorded
  service time is non-negative.
\<close>

theorem recorded_times_nonnegative:
  assumes "run rnd n = Next s \<or> run rnd n = Stop s"
  shows "(\<forall>w\<in>set (waiting_times s). 0 \<le> w) \<and> (\<forall>x\<in>set (service_times s). 0 \<le> x)"
  using run_time_ok [OF assms] by (simp add: time_ok_def)

subsection \<open>Customers in service\<close>

lemma trigger_put_heap:
  "heap (trigger_put li s) = heap s \<or>
   (\<exists>r. heap (trigger_put li s) =
      heap s @ [\<lparr>ev_time = now s, ev_prio = NORMAL, ev_id = eid s, ev_event = Request r\<rparr>])"
  by (simp add: trigger_put_def Let_def split: list.splits)

lemma in_service_schedule:
  "in_service (schedule p d ev s) = in_service s + (if serving ev then 1 else 0)"
  by (simp add: in_service_def)

lemma in_service_trigger_put [simp]: "in_service (trigger_put li s) = in_service s"
  using trigger_put_heap [of li s] by (auto simp: in_service_def)

lemma in_service_request [simp]: "in_service (request f s) = in_service s"
  by (simp add: request_def Let_def) (simp add: in_service_def)

lemma in_service_release [simp]: "in_service (release f s) = in_service s"
  by (simp add: release_def Let_def in_service_schedule) (simp add: in_service_def)









subsection \<open>The horizon\<close>
















subsection \<open>Samples that are not positive\<close>


subsection \<open>The congested run\<close>

lemma run_step: "run rnd n = Next s \<Longrightarrow> step rnd s = Next s' \<Longrightarrow> run rnd (Suc n) = Next s'"
  by simp

lemma congested_run_56: "run congested 56 = Next congested_56"
  by code_simp

lemma congested_next_56: "next_event congested_56 = Some (InitializeCustomer 22)"
  by code_simp

lemma congested_step_56: "step congested congested_56 = Next congested_57"
  by code_simp

lemma congested_step_57: "step congested congested_57 = Next congested_58"
  by code_simp

lemma congested_step_58: "step congested congested_58 = Next congested_59"
  by code_simp

lemma congested_run_57: "run congested 57 = Next congested_57"
  using run_step [OF congested_run_56 congested_step_56] by simp

lemma congested_run_58: "run congested 58 = Next congested_58"
  using run_step [OF congested_run_57 congested_step_57] by simp

lemma congested_run_59: "run congested 59 = Next congested_59"
  using run_step [OF congested_run_58 congested_step_58] by simp

lemma manage_checkouts_congested_56: "manage_checkouts congested_56 = Inr congested_56_managed"
  by code_simp

text \<open>
  C1, at a failing run. After 56 steps of the congested run three lanes are active and
  customer 22 is about to start; lane 1 has a load of 10 and lane 2 a load of 9. The
  next step calls \<open>manage_checkouts\<close>, whose first test fires again and assigns 2: the
  run goes from three active lanes to two.
\<close>

theorem active_lanes_decreases_in_congested_run:
  "run congested 56 = Next congested_56 \<and>
   next_event congested_56 = Some (InitializeCustomer 22) \<and>
   map load (checkout_lanes congested_56) = [10, 9, 1] \<and>
   active_lanes congested_56 = 3 \<and>
   manage_checkouts congested_56 = Inr congested_56_managed \<and>
   active_lanes congested_56_managed = 2 \<and>
   run congested 57 = Next congested_57 \<and>
   active_lanes congested_57 = 2"
proof (intro conjI)
  show "run congested 56 = Next congested_56" by (rule congested_run_56)
  show "next_event congested_56 = Some (InitializeCustomer 22)" by (rule congested_next_56)
  show "map load (checkout_lanes congested_56) = [10, 9, 1]" by code_simp
  show "active_lanes congested_56 = 3" by (simp add: congested_56_def)
  show "manage_checkouts congested_56 = Inr congested_56_managed" by (rule manage_checkouts_congested_56)
  show "active_lanes congested_56_managed = 2" by (simp add: congested_56_managed_def)
  show "run congested 57 = Next congested_57" by (rule congested_run_57)
  show "active_lanes congested_57 = 2" by code_simp
qed

text \<open>
  Apart from that case the count does not decrease: a call that starts with fewer than
  three active lanes never ends with fewer.
\<close>

lemma manage_checkouts_mono_below_three:
  "manage_checkouts s = Inr s' \<Longrightarrow> active_lanes s < 3 \<Longrightarrow> active_lanes s \<le> active_lanes s'"
  by (auto simp: manage_checkouts_def Let_def lane_load_def split: sum.splits if_splits)

text \<open>
  The code and the policy of the specification agree on every state of a run in which
  the first test of the code does not fire while lane 2 is already active.
\<close>

lemma manage_checkouts_spec_agree:
  assumes "lanes_ok s"
    and "\<not> (MAX_QUEUE \<le> load (checkout_lanes s ! 0) \<and> 2 \<le> active_lanes s)"
  shows "manage_checkouts s = manage_checkouts_spec s"
proof (cases "MAX_QUEUE \<le> load (checkout_lanes s ! 0)")
  case True
  with assms have "active_lanes s = 1" "load (checkout_lanes s ! 1) = 0"
    by (auto simp: lanes_ok_def)
  with True assms(1) show ?thesis
    by (simp add: manage_checkouts_def manage_checkouts_spec_def Let_def lane_load_def
        lanes_ok_def NUM_CHECKOUT_LANES_def MAX_QUEUE_def)
next
  case False
  with assms(1) show ?thesis
    by (simp add: manage_checkouts_def manage_checkouts_spec_def Let_def lane_load_def
        lanes_ok_def NUM_CHECKOUT_LANES_def)
qed

text \<open>
  C4, at a failing state. In the state the congested run has reached after 56 steps
  (three active lanes, loads 10, 9 and 1) the policy of the specification changes
  nothing, since lane 2 is already active and its load is below the threshold; the code
  announces lane 2 again and sets the number of active lanes to two.
\<close>

theorem manage_checkouts_reopens_lane_two:
  "run congested 56 = Next congested_56 \<and>
   manage_checkouts_spec congested_56 = Inr congested_56 \<and>
   manage_checkouts congested_56 =
     Inr (congested_56\<lparr>stdout := stdout congested_56 @ [LaneOpens 2 22], active_lanes := 2\<rparr>) \<and>
   active_lanes congested_56 = 3"
proof (intro conjI)
  show "run congested 56 = Next congested_56" by (rule congested_run_56)
  show "manage_checkouts_spec congested_56 = Inr congested_56" by code_simp
  show "manage_checkouts congested_56 =
     Inr (congested_56\<lparr>stdout := stdout congested_56 @ [LaneOpens 2 22], active_lanes := 2\<rparr>)"
    using manage_checkouts_congested_56 by (simp add: congested_56_managed_def)
  show "active_lanes congested_56 = 3" by (simp add: congested_56_def)
qed

text \<open>
  Witness of C6: in the congested run the step that starts customer 23 takes the number
  of active lanes from two to three, with a load of 10 on lane 2.
\<close>

theorem lane_three_only_after_lane_two_witness:
  "run congested 58 = Next congested_58 \<and>
   (run congested (Suc 58) = Next congested_59 \<or> run congested (Suc 58) = Stop congested_59) \<and>
   active_lanes congested_59 = 3 \<and> active_lanes congested_58 \<noteq> 3 \<and>
   active_lanes congested_58 = 2 \<and> MAX_QUEUE \<le> load (checkout_lanes congested_58 ! 1)"
proof -
  have h2: "run congested (Suc 58) = Next congested_59 \<or> run congested (Suc 58) = Stop congested_59"
    using congested_run_59 by simp
  have h3: "active_lanes congested_59 = 3" by code_simp
  have h4: "active_lanes congested_58 \<noteq> 3" by code_simp
  from lane_three_only_after_lane_two [OF congested_run_58 h2 h3 h4] congested_run_58 h2 h3 h4
  show ?thesis by blast
qed

text \<open>
  Witness of C7: when customer 22 starts, lanes 1 and 2 are active after the
  re-evaluation, with loads 10 and 9; the router returns index 1 and the customer joins
  the second lane, whose load becomes 10.
\<close>

theorem router_least_loaded_active_lane_witness:
  "run congested 56 = Next congested_56 \<and>
   next_event congested_56 = Some (InitializeCustomer 22) \<and>
   run congested (Suc 56) = Next congested_57 \<and>
   manage_checkouts congested_56 = Inr congested_56_managed \<and>
   map load (checkout_lanes congested_56_managed) = [10, 9, 1] \<and>
   active_lanes congested_56_managed = 2 \<and>
   choose_lane_number congested_56_managed = Inr 1 \<and>
   load (checkout_lanes congested_56_managed ! 1) \<le> load (checkout_lanes congested_56_managed ! 0) \<and>
   load (checkout_lanes congested_56_managed ! 1) < load (checkout_lanes congested_56_managed ! 0) \<and>
   last (stdout congested_57) = Joins 22 2 9 \<and>
   load (checkout_lanes congested_57 ! 1) = 10"
proof -
  from router_least_loaded_active_lane [OF congested_run_56 congested_next_56]
  obtain s' s1 i where
    r: "run congested (Suc 56) = Next s'"
    and m: "manage_checkouts congested_56 = Inr s1" and c: "choose_lane_number s1 = Inr i"
    and le: "\<forall>j<active_lanes s1. load (checkout_lanes s1 ! i) \<le> load (checkout_lanes s1 ! j)"
    and less: "\<forall>j<i. load (checkout_lanes s1 ! i) < load (checkout_lanes s1 ! j)"
    and joins: "last (stdout s') = Joins 22 (i + 1) (load (checkout_lanes s1 ! i))"
    and grows: "load (checkout_lanes s' ! i) = load (checkout_lanes congested_56 ! i) + 1"
    by blast
  from r have s': "s' = congested_57" using congested_run_57 by simp
  from m have s1: "s1 = congested_56_managed" using manage_checkouts_congested_56 by simp
  have ch: "choose_lane_number congested_56_managed = Inr 1" by code_simp
  with c s1 have i: "i = 1" by simp
  have act: "active_lanes congested_56_managed = 2" by (simp add: congested_56_managed_def)
  have l: "map load (checkout_lanes congested_56_managed) = [10, 9, 1]" by code_simp
  have l9: "load (checkout_lanes congested_56_managed ! 1) = 9"
    and l9': "load (checkout_lanes congested_56 ! 1) = 9" by code_simp+
  from le s1 i act have "load (checkout_lanes congested_56_managed ! 1) \<le>
      load (checkout_lanes congested_56_managed ! 0)" by simp
  moreover from less s1 i have "load (checkout_lanes congested_56_managed ! 1) <
      load (checkout_lanes congested_56_managed ! 0)" by simp
  moreover from joins have "last (stdout congested_57) = Joins 22 2 9"
    unfolding s' s1 i l9 by simp
  moreover from grows have "load (checkout_lanes congested_57 ! 1) = 10"
    unfolding s' i l9' by simp
  ultimately show ?thesis
    using congested_run_56 congested_next_56 congested_run_57 manage_checkouts_congested_56
      l act ch by simp
qed

text \<open>
  Witness of C8: when customer 22 starts, two lanes are active after the re-evaluation,
  with loads 10 and 9, and the observation \<open>19 / 2\<close> is recorded at minute 22.
\<close>

theorem queue_observation_at_arrival_witness:
  "run congested 56 = Next congested_56 \<and>
   next_event congested_56 = Some (InitializeCustomer 22) \<and>
   run congested (Suc 56) = Next congested_57 \<and>
   manage_checkouts congested_56 = Inr congested_56_managed \<and>
   active_lanes congested_56_managed = 2 \<and>
   map load (checkout_lanes congested_56) = [10, 9, 1] \<and>
   average_queue_lengths congested_57 = average_queue_lengths congested_56 @ [19 / 2] \<and>
   queue_record_times congested_57 = queue_record_times congested_56 @ [22]"
proof -
  from queue_observation_at_arrival [OF congested_run_56 congested_next_56] obtain s' s1 where
    r: "run congested (Suc 56) = Next s'" and m: "manage_checkouts congested_56 = Inr s1"
    and avg: "average_queue_lengths s' = average_queue_lengths congested_56 @
             [real (sum_list (map load (take (active_lanes s1) (checkout_lanes congested_56)))) /
              real (active_lanes s1)]"
    and rec: "queue_record_times s' = queue_record_times congested_56 @ [now s']"
    by blast
  from r have s': "s' = congested_57" using congested_run_57 by simp
  from m have s1: "s1 = congested_56_managed" using manage_checkouts_congested_56 by simp
  have v: "real (sum_list (map load (take (active_lanes congested_56_managed)
             (checkout_lanes congested_56)))) / real (active_lanes congested_56_managed) = 19 / 2"
    by code_simp
  have n: "now congested_57 = 22" by code_simp
  have l: "map load (checkout_lanes congested_56) = [10, 9, 1]" by code_simp
  have act: "active_lanes congested_56_managed = 2" by (simp add: congested_56_managed_def)
  from avg rec show ?thesis
    unfolding s' s1 v n using congested_run_56 congested_next_56 congested_run_57
      manage_checkouts_congested_56 l act by simp
qed

text \<open>Witness of C10, in the congested run after 56 steps.\<close>

theorem active_lanes_positive_witness:
  "(run congested 56 = Next congested_56 \<or> run congested 56 = Stop congested_56) \<and>
   1 \<le> active_lanes congested_56 \<and> (\<exists>s'. update_queue_stats congested_56 = Inr s')"
proof -
  have h: "run congested 56 = Next congested_56 \<or> run congested 56 = Stop congested_56"
    using congested_run_56 by simp
  from active_lanes_positive [OF h] h show ?thesis by blast
qed

text \<open>Witness of C9, in the congested run after 56 steps.\<close>

theorem recorded_times_nonnegative_witness:
  "(run congested 56 = Next congested_56 \<or> run congested 56 = Stop congested_56) \<and>
   waiting_times congested_56 = [0, 0, 0, 19 / 2] \<and> service_times congested_56 = [21 / 2] \<and>
   list_all (\<lambda>w. 0 \<le> w) (waiting_times congested_56) \<and>
   list_all (\<lambda>x. 0 \<le> x) (service_times congested_56)"
proof -
  have h: "run congested 56 = Next congested_56 \<or> run congested 56 = Stop congested_56"
    using congested_run_56 by simp
  from recorded_times_nonnegative [OF h] have
    "list_all (\<lambda>w. 0 \<le> w) (waiting_times congested_56) \<and>
     list_all (\<lambda>x. 0 \<le> x) (service_times congested_56)"
    by (simp add: list_all_iff)
  then show ?thesis using h by (simp add: congested_56_def)
qed

subsection \<open>Runs that meet the horizon\<close>







subsection \<open>Runs with samples that are not positive\<close>






end
